theory Spec2Isabelle
  imports Complex_Main "HOL-Library.Multiset" "HOL-Library.Product_Lexorder"
begin

section \<open>Strings\<close>

text \<open>
  Source strings are modelled as \<open>string\<close> (lists of 8-bit characters) and read as ASCII.
  \<open>String.prototype.trim\<close> removes the white space and line terminators at both ends;
  \<open>String.prototype.toUpperCase\<close> maps \<open>a..z\<close> to \<open>A..Z\<close> and leaves every other
  ASCII character alone.
\<close>

definition isWhiteSpace :: "char \<Rightarrow> bool" where
  "isWhiteSpace c = (c \<in> set [CHR 0x09, CHR 0x0A, CHR 0x0B, CHR 0x0C, CHR 0x0D, CHR 0x20])"

definition trim :: "string \<Rightarrow> string" where
  "trim s = rev (dropWhile isWhiteSpace (rev (dropWhile isWhiteSpace s)))"

definition toUpperChar :: "char \<Rightarrow> char" where
  "toUpperChar c =
     (let n = (of_char c :: nat) in if 97 \<le> n \<and> n \<le> 122 then char_of (n - 32) else c)"

definition toUpperCase :: "string \<Rightarrow> string" where
  "toUpperCase s = map toUpperChar s"

section \<open>Double-precision arithmetic\<close>

text \<open>
  A JavaScript number is an IEEE 754 double. A finite double is represented by the rational
  it denotes; an arithmetic operation computes the exact rational result and rounds it with
  \<open>fl\<close> to the nearest double, ties to the even significand (53 significant bits).
  \<open>lo2 x\<close> is the binary exponent \<open>\<lfloor>log\<^sub>2 x\<rfloor>\<close> of a positive \<open>x\<close>. Overflow, subnormal
  numbers, \<open>NaN\<close> and the infinities are outside the model: every quantity of this
  development stays far inside the normal range.
\<close>

function lo2 :: "rat \<Rightarrow> int" where
  "lo2 x = (if x \<le> 0 then 0
            else if 2 \<le> x then lo2 (x / 2) + 1
            else if x < 1 then lo2 (x * 2) - 1
            else 0)"
  by pat_completeness auto
termination
proof (relation "measure (\<lambda>x. nat \<lfloor>x\<rfloor> + 2 * nat \<lceil>1 / x\<rceil>)")
  show "wf (measure (\<lambda>x::rat. nat \<lfloor>x\<rfloor> + 2 * nat \<lceil>1 / x\<rceil>))"
    by (rule wf_measure)
next
  fix x :: rat
  assume "\<not> x \<le> 0" and big: "2 \<le> x"
  have "x / 2 \<le> x - 1" using big by simp
  then have "\<lfloor>x / 2\<rfloor> \<le> \<lfloor>x - 1\<rfloor>" by (rule floor_mono)
  then have a: "\<lfloor>x / 2\<rfloor> \<le> \<lfloor>x\<rfloor> - 1" by simp
  have b: "1 \<le> \<lfloor>x / 2\<rfloor>" using big by (simp add: le_floor_iff)
  have "0 < 1 / x" "1 / x \<le> 1" using big by simp_all
  then have c: "\<lceil>1 / x\<rceil> = 1" by (simp add: ceiling_eq_iff)
  have "0 < 1 / (x / 2)" "1 / (x / 2) \<le> 1" using big by simp_all
  then have d: "\<lceil>1 / (x / 2)\<rceil> = 1" by (simp add: ceiling_eq_iff)
  have "nat \<lfloor>x / 2\<rfloor> + 2 * nat \<lceil>1 / (x / 2)\<rceil> < nat \<lfloor>x\<rfloor> + 2 * nat \<lceil>1 / x\<rceil>"
    using a b c d by simp
  then show "(x / 2, x) \<in> measure (\<lambda>x. nat \<lfloor>x\<rfloor> + 2 * nat \<lceil>1 / x\<rceil>)"
    by (simp only: in_measure)
next
  fix x :: rat
  assume pos: "\<not> x \<le> 0" and "\<not> 2 \<le> x" and small: "x < 1"
  have a: "\<lfloor>x\<rfloor> = 0" using pos small by (simp add: floor_eq_iff)
  have "x * 2 < 2" using small by simp
  then have b: "\<lfloor>x * 2\<rfloor> \<le> 1" by (simp add: floor_le_iff)
  have "1 < 1 / x" using pos small by simp
  then have c: "2 \<le> \<lceil>1 / x\<rceil>" by (simp add: le_ceiling_iff)
  have "1 / (x * 2) = (1 / x) / 2" by simp
  also have "\<dots> \<le> of_int \<lceil>1 / x\<rceil> / 2" by (simp add: divide_right_mono)
  also have "\<dots> \<le> of_int (\<lceil>1 / x\<rceil> - 1)" using c by simp
  finally have d: "\<lceil>1 / (x * 2)\<rceil> \<le> \<lceil>1 / x\<rceil> - 1" by (simp only: ceiling_le_iff)
  have e: "0 < \<lceil>1 / (x * 2)\<rceil>" using pos by simp
  have "nat \<lfloor>x * 2\<rfloor> \<le> 1" using b by linarith
  moreover have "nat \<lceil>1 / (x * 2)\<rceil> + 1 \<le> nat \<lceil>1 / x\<rceil>" using d e by linarith
  moreover have "nat \<lfloor>x\<rfloor> = 0" by (simp only: a nat_0)
  ultimately have "nat \<lfloor>x * 2\<rfloor> + 2 * nat \<lceil>1 / (x * 2)\<rceil> < nat \<lfloor>x\<rfloor> + 2 * nat \<lceil>1 / x\<rceil>"
    by linarith
  then show "(x * 2, x) \<in> measure (\<lambda>x. nat \<lfloor>x\<rfloor> + 2 * nat \<lceil>1 / x\<rceil>)"
    by (simp only: in_measure)
qed

declare lo2.simps [simp del]

definition roundTiesToEven :: "rat \<Rightarrow> int" where
  "roundTiesToEven q =
     (let f = \<lfloor>q\<rfloor>; d = q - of_int f
      in if d < 1 / 2 then f
         else if 1 / 2 < d then f + 1
         else if even f then f else f + 1)"

definition fl :: "rat \<Rightarrow> rat" where
  "fl x = (if x = 0 then 0
           else let u = 2 powi (lo2 \<bar>x\<bar> - 52)
                in of_int (roundTiesToEven (x / u)) * u)"

text \<open>The operators \<open>+\<close>, \<open>*\<close> and \<open>/\<close> of the source on finite doubles.\<close>

definition fadd :: "rat \<Rightarrow> rat \<Rightarrow> rat" where
  "fadd a b = fl (a + b)"

definition fmul :: "rat \<Rightarrow> rat \<Rightarrow> rat" where
  "fmul a b = fl (a * b)"

definition fdiv :: "rat \<Rightarrow> rat \<Rightarrow> rat" where
  "fdiv a b = fl (a / b)"

section \<open>History entries\<close>

text \<open>
  A history entry of the CRM: \<open>{ timestamp, value }\<close>. Either field may be absent
  (\<open>None\<close>). Timestamps are epoch milliseconds, given as a number or a numeric string;
  \<open>Number(e.timestamp || 0)\<close> reads an absent timestamp as \<open>0\<close>. Epoch milliseconds and
  the window arithmetic on them are integers far below \<open>2^53\<close>, where doubles are exact,
  so they are modelled as \<open>int\<close>.
\<close>

record historyEntry =
  timestamp :: "int option"
  hvalue :: "string option"

definition entryTs :: "historyEntry \<Rightarrow> int" where
  \<comment> \<open>\<open>Number(e.timestamp || 0)\<close>\<close>
  "entryTs e = (case timestamp e of None \<Rightarrow> 0 | Some n \<Rightarrow> n)"

definition entryValue :: "historyEntry \<Rightarrow> string" where
  \<comment> \<open>\<open>String(e.value || "")\<close> and \<open>String(e?.value ?? "")\<close>: the same string for a string value\<close>
  "entryValue e = (case hvalue e of None \<Rightarrow> [] | Some s \<Rightarrow> s)"

section \<open>Conversion paths (\<open>buildConversionPath\<close>, \<open>pathToKey\<close>)\<close>

definition MCF_LOOKBACK_DAYS :: int where
  "MCF_LOOKBACK_DAYS = 90"

definition lookbackMs :: "int option \<Rightarrow> int" where
  \<comment> \<open>\<open>(lookbackDays || MCF_LOOKBACK_DAYS) * 24 * 60 * 60 * 1000\<close>: an absent or zero argument is falsy\<close>
  "lookbackMs lookbackDays =
     (case lookbackDays of
        None \<Rightarrow> MCF_LOOKBACK_DAYS
      | Some d \<Rightarrow> if d = 0 then MCF_LOOKBACK_DAYS else d) * 24 * 60 * 60 * 1000"

definition inWindow :: "int \<Rightarrow> int \<Rightarrow> historyEntry \<Rightarrow> bool" where
  \<comment> \<open>the filter callback: \<open>ts >= windowStart && ts <= conversionTimestamp\<close>\<close>
  "inWindow windowStart conversionTimestamp e =
     (windowStart \<le> entryTs e \<and> entryTs e \<le> conversionTimestamp)"

definition windowEntries :: "historyEntry list \<Rightarrow> int \<Rightarrow> int option \<Rightarrow> historyEntry list" where
  \<comment> \<open>\<open>entries\<close>: the filtered history, sorted by timestamp (\<open>Array.prototype.sort\<close> is stable)\<close>
  "windowEntries sourceHistory conversionTimestamp lookbackDays =
     (let windowStart = conversionTimestamp - lookbackMs lookbackDays
      in sort_key entryTs (filter (inWindow windowStart conversionTimestamp) sourceHistory))"

definition pathToken :: "historyEntry \<Rightarrow> string" where
  \<comment> \<open>\<open>String(e.value || "").trim().toUpperCase()\<close>\<close>
  "pathToken e = toUpperCase (trim (entryValue e))"

definition collapse_step :: "string list \<Rightarrow> string \<Rightarrow> string list" where
  \<comment> \<open>the body of the loop over \<open>rawPath\<close>\<close>
  "collapse_step collapsed step =
     (if collapsed = [] \<or> last collapsed \<noteq> step then collapsed @ [step] else collapsed)"

definition collapse :: "string list \<Rightarrow> string list" where
  "collapse rawPath = foldl collapse_step [] rawPath"

definition buildConversionPath :: "historyEntry list \<Rightarrow> int \<Rightarrow> int option \<Rightarrow> string list" where
  "buildConversionPath sourceHistory conversionTimestamp lookbackDays =
     (let entries = windowEntries sourceHistory conversionTimestamp lookbackDays
      in if entries = [] then [''UNKNOWN'']
         else let rawPath = filter (\<lambda>s. s \<noteq> []) (map pathToken entries);
                  collapsed = collapse rawPath
              in if collapsed \<noteq> [] then collapsed else [''UNKNOWN''])"

text \<open>
  The later copy of \<open>server.js\<close> and the second suite of \<open>test-mcf.js\<close> hold a
  two-argument version of \<open>buildConversionPath\<close>, without lookback: its filter is
  \<open>ts > 0 && ts <= conversionTimestamp\<close>, the rest of the body is the same.
\<close>

definition journeyEntries :: "historyEntry list \<Rightarrow> int \<Rightarrow> historyEntry list" where
  "journeyEntries sourceHistory conversionTimestamp =
     sort_key entryTs
       (filter (\<lambda>e. 0 < entryTs e \<and> entryTs e \<le> conversionTimestamp) sourceHistory)"

definition buildConversionPath_fullJourney :: "historyEntry list \<Rightarrow> int \<Rightarrow> string list" where
  "buildConversionPath_fullJourney sourceHistory conversionTimestamp =
     (let entries = journeyEntries sourceHistory conversionTimestamp
      in if entries = [] then [''UNKNOWN'']
         else let rawPath = filter (\<lambda>s. s \<noteq> []) (map pathToken entries);
                  collapsed = collapse rawPath
              in if collapsed \<noteq> [] then collapsed else [''UNKNOWN''])"

fun join :: "string \<Rightarrow> string list \<Rightarrow> string" where
  "join sep [] = []"
| "join sep [x] = x"
| "join sep (x # y # ys) = x @ sep @ join sep (y # ys)"

definition pathToKey :: "string list \<Rightarrow> string" where
  "pathToKey pathArray = join ''>'' pathArray"

section \<open>Contribution score (\<open>computeMarketingContribution\<close>)\<close>

record contribution =
  percent :: rat
  totalChanges :: nat
  marketingChanges :: nat

definition DEFAULT_MARKETING_SOURCES :: "string set" where
  "DEFAULT_MARKETING_SOURCES =
     {''ORGANIC_SEARCH'', ''PAID_SEARCH'', ''EMAIL_MARKETING'', ''SOCIAL_MEDIA'', ''REFERRALS'',
      ''OTHER_CAMPAIGNS'', ''PAID_SOCIAL'', ''DISPLAY_ADS''}"

definition countStep :: "string set \<Rightarrow> nat \<times> nat \<Rightarrow> historyEntry \<Rightarrow> nat \<times> nat" where
  \<comment> \<open>the body of the counting loop, on the pair \<open>(totalChanges, marketingChanges)\<close>\<close>
  "countStep marketingSources counts e =
     (let newValue = trim (entryValue e)
      in if newValue = [] then counts
         else (fst counts + 1,
               if newValue \<in> marketingSources then snd counts + 1 else snd counts))"

definition computeMarketingContribution :: "historyEntry list \<Rightarrow> string set \<Rightarrow> contribution" where
  "computeMarketingContribution historyEntries marketingSources =
     (let entries = sort_key entryTs historyEntries
      in if entries = [] then \<lparr>percent = 0, totalChanges = 0, marketingChanges = 0\<rparr>
         else let counts = foldl (countStep marketingSources) (0, 0) entries;
                  pct = (if 0 < fst counts then fdiv (of_nat (snd counts)) (of_nat (fst counts))
                         else 0)
              in \<lparr>percent = pct, totalChanges = fst counts, marketingChanges = snd counts\<rparr>)"

section \<open>Closed-won stages (\<open>getClosedWonStageIds\<close>)\<close>

text \<open>
  Stage metadata of the CRM's pipelines. \<open>isClosed\<close> is the raw string of the metadata.
  \<open>probability\<close> holds the number that \<open>parseFloat\<close> reads from the metadata string;
  \<open>None\<close> stands for an absent or empty string, for which the source parses \<open>"0"\<close>
  (a string that \<open>parseFloat\<close> cannot read gives \<open>NaN\<close>, which fails the guard as \<open>0\<close>
  does).
\<close>

record stageMetadata =
  isClosed :: "string option"
  probability :: "rat option"

record stage =
  stage_id :: string
  metadata :: "stageMetadata option"

record pipeline =
  stages :: "stage list"

record pipelineCacheEntry =
  stageIds :: "string set"
  fetchedAt :: int

definition stageMeta :: "stage \<Rightarrow> stageMetadata" where
  \<comment> \<open>\<open>stage.metadata || {}\<close>\<close>
  "stageMeta s = (case metadata s of
                    None \<Rightarrow> \<lparr>isClosed = None, probability = None\<rparr>
                  | Some m \<Rightarrow> m)"

definition parsedProbability :: "stageMetadata \<Rightarrow> rat" where
  \<comment> \<open>\<open>parseFloat(meta.probability || "0")\<close>\<close>
  "parsedProbability meta = (case probability meta of None \<Rightarrow> 0 | Some p \<Rightarrow> p)"

definition isClosedWon :: "stage \<Rightarrow> bool" where
  \<comment> \<open>\<open>meta.isClosed === "true" && parseFloat(meta.probability || "0") >= 1.0\<close>\<close>
  "isClosedWon s =
     (let meta = stageMeta s
      in isClosed meta = Some ''true'' \<and> 1 \<le> parsedProbability meta)"

definition collectStageIds :: "pipeline list \<Rightarrow> string set" where
  \<comment> \<open>the two nested loops that fill \<open>stageIds\<close>\<close>
  "collectStageIds results =
     foldl (\<lambda>acc p. foldl (\<lambda>acc s. if isClosedWon s then insert (stage_id s) acc else acc)
                          acc (stages p))
           {} results"

definition cacheFresh :: "(string \<rightharpoonup> pipelineCacheEntry) \<Rightarrow> string \<Rightarrow> int \<Rightarrow> bool" where
  \<comment> \<open>\<open>pipelineCache[key] && Date.now() - pipelineCache[key].fetchedAt < 3600000\<close>\<close>
  "cacheFresh pipelineCache key now =
     (case pipelineCache key of
        None \<Rightarrow> False
      | Some c \<Rightarrow> now - fetchedAt c < 3600000)"

definition getClosedWonStageIds ::
  "(string \<rightharpoonup> pipelineCacheEntry) \<Rightarrow> string \<Rightarrow> int \<Rightarrow> int \<Rightarrow> pipeline list option
     \<Rightarrow> string set \<times> (string \<rightharpoonup> pipelineCacheEntry)" where
  \<comment> \<open>\<open>now\<close> and \<open>now'\<close> are the two readings of the clock; \<open>response\<close> is the outcome of
      the pipelines request, \<open>None\<close> when it throws. The result is the returned set and
      the cache after the call.\<close>
  "getClosedWonStageIds pipelineCache key now now' response =
     (if cacheFresh pipelineCache key now
      then (case pipelineCache key of
              None \<Rightarrow> ({}, pipelineCache)
            | Some c \<Rightarrow> (stageIds c, pipelineCache))
      else case response of
             None \<Rightarrow> ({}, pipelineCache)
           | Some results \<Rightarrow>
               let ids = collectStageIds results
               in (ids, pipelineCache(key \<mapsto> \<lparr>stageIds = ids, fetchedAt = now'\<rparr>)))"

section \<open>Path aggregation and ranking (\<open>/api/mcf/refresh\<close>)\<close>

text \<open>
  One conversion as the aggregation loop sees it: the path built for the contact, and the
  amount and currency of the conversion result. \<open>pathCounts\<close> is an object used as a
  dictionary; it is modelled as an association list in insertion order, which is the order
  \<open>Object.values\<close> enumerates (a key that is a canonical array index is enumerated before
  the others by the engine; no property below depends on the order of the table). A
  \<open>Set\<close> of currencies is a duplicate-free list in insertion order. The amounts are finite
  doubles, on which \<open>convResult.value || 0\<close> is the identity.
\<close>

record conversion =
  cpath :: "string list"
  amount :: rat
  currency :: "string option"

record aggregatedPath =
  path :: "string list"
  conversions :: nat
  totalValue :: rat
  currencies :: "string list"

definition newBucket :: "string list \<Rightarrow> aggregatedPath" where
  "newBucket p = \<lparr>path = p, conversions = 0, totalValue = 0, currencies = []\<rparr>"

definition addCurrency :: "string option \<Rightarrow> string list \<Rightarrow> string list" where
  \<comment> \<open>\<open>if (convResult.currency) currencies.add(convResult.currency)\<close>: null and "" are falsy\<close>
  "addCurrency c cs =
     (case c of
        None \<Rightarrow> cs
      | Some s \<Rightarrow> if s = [] then cs else if s \<in> set cs then cs else cs @ [s])"

definition bump :: "conversion \<Rightarrow> aggregatedPath \<Rightarrow> aggregatedPath" where
  \<comment> \<open>\<open>conversions++; totalValue += convResult.value || 0;\<close> and the currency\<close>
  "bump c b =
     b\<lparr>conversions := conversions b + 1,
       totalValue := fadd (totalValue b) (amount c),
       currencies := addCurrency (currency c) (currencies b)\<rparr>"

fun accumulateAt ::
  "string \<Rightarrow> conversion \<Rightarrow> (string \<times> aggregatedPath) list \<Rightarrow> (string \<times> aggregatedPath) list" where
  "accumulateAt k c [] = [(k, bump c (newBucket (cpath c)))]"
| "accumulateAt k c ((k', b) # rest) =
     (if k' = k then (k', bump c b) # rest else (k', b) # accumulateAt k c rest)"

definition accumulate ::
  "(string \<times> aggregatedPath) list \<Rightarrow> conversion \<Rightarrow> (string \<times> aggregatedPath) list" where
  "accumulate pathCounts c = accumulateAt (pathToKey (cpath c)) c pathCounts"

definition aggregate :: "conversion list \<Rightarrow> (string \<times> aggregatedPath) list" where
  "aggregate cs = foldl accumulate [] cs"

definition threshNum :: "nat \<Rightarrow> rat \<Rightarrow> int" where
  \<comment> \<open>\<open>Math.max(1, Math.ceil(totalConversions * (thresholdPct / 100)))\<close>\<close>
  "threshNum totalConversions thresholdPct =
     max 1 \<lceil>fmul (of_nat totalConversions) (fdiv thresholdPct 100)\<rceil>"

record pathSummary =
  summaryPath :: "string list"
  pathKey :: string
  summaryConversions :: nat
  conversionValue :: rat
  summaryCurrencies :: "string list"

definition summary :: "aggregatedPath \<Rightarrow> pathSummary" where
  \<comment> \<open>\<open>Math.round(x)\<close> is \<open>\<lfloor>x + 1/2\<rfloor>\<close>\<close>
  "summary p =
     \<lparr>summaryPath = path p,
      pathKey = pathToKey (path p),
      summaryConversions = conversions p,
      conversionValue = fdiv (of_int \<lfloor>fmul (totalValue p) 100 + 1 / 2\<rfloor>) 100,
      summaryCurrencies = currencies p\<rparr>"

definition qualifying :: "(string \<times> aggregatedPath) list \<Rightarrow> nat \<Rightarrow> rat \<Rightarrow> aggregatedPath list" where
  \<comment> \<open>\<open>Object.values(pathCounts).filter(...).sort(...)\<close>: conversions descending, then
      total value descending, stable\<close>
  "qualifying pathCounts totalConversions thresholdPct =
     sort_key (\<lambda>p. (- int (conversions p), - totalValue p))
       (filter (\<lambda>p. threshNum totalConversions thresholdPct \<le> int (conversions p))
          (map snd pathCounts))"

definition topPaths :: "(string \<times> aggregatedPath) list \<Rightarrow> nat \<Rightarrow> rat \<Rightarrow> pathSummary list" where
  "topPaths pathCounts totalConversions thresholdPct =
     map summary (qualifying pathCounts totalConversions thresholdPct)"

section \<open>Properties of the double-precision model\<close>

text \<open>
  \<open>lo2\<close> is the binary exponent, and rounding leaves every integer of magnitude at most
  \<open>2^53\<close> unchanged; a sum of such integers that stays within \<open>2^53\<close> is exact.
\<close>

lemma lo2_bounds: "0 < x \<Longrightarrow> 2 powi (lo2 x) \<le> x \<and> x < 2 powi (lo2 x + 1)"
proof (induction x rule: lo2.induct)
  case (1 x)
  show ?case
  proof (cases "2 \<le> x")
    case True
    then have "0 < x / 2" by simp
    with 1 True have "2 powi lo2 (x / 2) \<le> x / 2 \<and> x / 2 < 2 powi (lo2 (x / 2) + 1)" by simp
    moreover have "lo2 x = lo2 (x / 2) + 1" using True by (subst lo2.simps) simp
    ultimately show ?thesis by (simp add: power_int_add)
  next
    case False
    show ?thesis
    proof (cases "x < 1")
      case True
      with 1 False have "2 powi lo2 (x * 2) \<le> x * 2 \<and> x * 2 < 2 powi (lo2 (x * 2) + 1)" by simp
      moreover have "lo2 x = lo2 (x * 2) - 1" using True False 1 by (subst lo2.simps) simp
      ultimately show ?thesis by (simp add: power_int_add power_int_diff)
    next
      case F2: False
      with False 1 have "lo2 x = 0" by (subst lo2.simps) simp
      with False F2 show ?thesis by simp
    qed
  qed
qed

lemma roundTiesToEven_of_int: "roundTiesToEven (of_int n) = n"
  by (simp add: roundTiesToEven_def)

lemma fl_exact:
  assumes "x / (2 powi (lo2 \<bar>x\<bar> - 52)) = of_int m"
  shows "fl x = x"
proof (cases "x = 0")
  case True
  then show ?thesis by (simp add: fl_def)
next
  case False
  define u :: rat where "u = 2 powi (lo2 \<bar>x\<bar> - 52)"
  have u0: "u \<noteq> 0" by (simp add: u_def)
  have "fl x = of_int (roundTiesToEven (x / u)) * u"
    using False by (simp add: fl_def u_def Let_def)
  also have "x / u = of_int m" using assms by (simp add: u_def)
  also have "of_int (roundTiesToEven (of_int m)) * u = of_int m * u"
    by (simp only: roundTiesToEven_of_int)
  also have "of_int m = x / u" using assms by (simp add: u_def)
  also have "x / u * u = x" using u0 by simp
  finally show ?thesis .
qed

lemma fl_of_int:
  assumes "\<bar>n\<bar> \<le> 2 ^ 53"
  shows "fl (of_int n) = of_int n"
proof (cases "n = 0")
  case True
  then show ?thesis by (simp add: fl_def)
next
  case False
  define x :: rat where "x = of_int n"
  define e where "e = lo2 \<bar>x\<bar>"
  have xpos: "0 < \<bar>x\<bar>" using False by (simp add: x_def)
  from lo2_bounds [OF xpos] have lo: "2 powi e \<le> \<bar>x\<bar>" by (simp add: e_def)
  have "rat_of_int \<bar>n\<bar> \<le> rat_of_int (2 ^ 53)" using assms by (simp only: of_int_le_iff)
  then have hi: "\<bar>x\<bar> \<le> 2 ^ 53" by (simp add: x_def)
  with lo have "(2::rat) powi e \<le> 2 powi 53" by simp
  then have e53: "e \<le> 53" by (rule power_int_le_imp_le_exp [rotated]) simp_all
  have "\<exists>m. x / (2 powi (e - 52)) = of_int m"
  proof (cases "e \<le> 52")
    case True
    have "(2::rat) powi (e - 52) = inverse (2 powi (52 - e))"
      using power_int_minus [of "2::rat" "52 - e"] by simp
    also have "(2::rat) powi (52 - e) = 2 ^ nat (52 - e)"
      using True by (simp add: power_int_nonneg_exp)
    finally have "x / (2 powi (e - 52)) = of_int (n * 2 ^ nat (52 - e))"
      by (simp add: x_def divide_inverse)
    then show ?thesis by blast
  next
    case F: False
    with e53 have e: "e = 53" by simp
    with lo hi have "\<bar>x\<bar> = 2 ^ 53" by simp
    then have "rat_of_int \<bar>n\<bar> = rat_of_int (2 ^ 53)" by (simp add: x_def)
    then have "\<bar>n\<bar> = 2 ^ 53" by (simp only: of_int_eq_iff)
    then consider "n = 2 ^ 53" | "n = - (2 ^ 53)" by linarith
    then have "n = 2 * (n div 2)" by cases simp_all
    then have "x = 2 * of_int (n div 2)" unfolding x_def
      by (metis of_int_mult of_int_numeral)
    then have "x / (2 powi (e - 52)) = of_int (n div 2)" using e by simp
    then show ?thesis by blast
  qed
  then obtain m where "x / (2 powi (lo2 \<bar>x\<bar> - 52)) = of_int m" unfolding e_def by blast
  then show ?thesis unfolding x_def by (rule fl_exact)
qed

lemma fl_Ints:
  assumes "x \<in> \<int>" "\<bar>x\<bar> \<le> 2 ^ 53"
  shows "fl x = x"
proof -
  from assms(1) obtain n where x: "x = of_int n" by (auto elim: Ints_cases)
  with assms(2) have "rat_of_int \<bar>n\<bar> \<le> rat_of_int (2 ^ 53)" by simp
  then have "\<bar>n\<bar> \<le> 2 ^ 53" by (simp only: of_int_le_iff)
  then show ?thesis unfolding x by (rule fl_of_int)
qed

lemma foldl_fadd_exact:
  assumes "a \<in> \<int>" "\<forall>v\<in>set vs. v \<in> \<int>" "\<bar>a\<bar> + (\<Sum>v\<leftarrow>vs. \<bar>v\<bar>) \<le> 2 ^ 53"
  shows "foldl fadd a vs = a + sum_list vs"
  using assms
proof (induction vs arbitrary: a)
  case Nil
  then show ?case by simp
next
  case (Cons v vs)
  have sum0: "0 \<le> (\<Sum>v\<leftarrow>vs. \<bar>v\<bar>)" by (rule sum_list_nonneg) auto
  from Cons.prems have int: "a + v \<in> \<int>" by simp
  from Cons.prems(3) sum0 have "\<bar>a + v\<bar> \<le> 2 ^ 53" by simp
  with int have step: "fadd a v = a + v" by (simp add: fadd_def fl_Ints)
  from Cons.prems(3) have "\<bar>a + v\<bar> + (\<Sum>v\<leftarrow>vs. \<bar>v\<bar>) \<le> 2 ^ 53" by simp
  with Cons.prems(2) int have "foldl fadd (a + v) vs = (a + v) + sum_list vs"
    by (intro Cons.IH) simp_all
  with step show ?case by simp
qed

section \<open>Properties of the conversion path\<close>

subsection \<open>Collapsing consecutive duplicates\<close>

lemma distinct_adj_collapse_step:
  "distinct_adj acc \<Longrightarrow> distinct_adj (collapse_step acc x)"
  by (simp add: collapse_step_def distinct_adj_append_iff)

lemma distinct_adj_foldl_collapse:
  "distinct_adj acc \<Longrightarrow> distinct_adj (foldl collapse_step acc xs)"
  by (induction xs arbitrary: acc) (simp_all add: distinct_adj_collapse_step)

lemma foldl_collapse_fixed:
  "distinct_adj (acc @ xs) \<Longrightarrow> foldl collapse_step acc xs = acc @ xs"
proof (induction xs arbitrary: acc)
  case Nil
  then show ?case by simp
next
  case (Cons x xs)
  from Cons.prems have step: "collapse_step acc x = acc @ [x]"
    by (auto simp: collapse_step_def distinct_adj_append_iff)
  from Cons.prems have "distinct_adj ((acc @ [x]) @ xs)" by simp
  then have "foldl collapse_step (acc @ [x]) xs = (acc @ [x]) @ xs" by (rule Cons.IH)
  with step show ?case by simp
qed

lemma distinct_adj_collapse: "distinct_adj (collapse xs)"
  by (simp add: collapse_def distinct_adj_foldl_collapse)

lemma collapse_fixed: "distinct_adj xs \<Longrightarrow> collapse xs = xs"
  using foldl_collapse_fixed [of "[]" xs] by (simp add: collapse_def)

lemma set_foldl_collapse: "set (foldl collapse_step acc xs) = set acc \<union> set xs"
proof (induction xs arbitrary: acc)
  case Nil
  then show ?case by simp
next
  case (Cons x xs)
  have "set (collapse_step acc x) = insert x (set acc)"
    by (cases "acc = []") (auto simp: collapse_step_def)
  with Cons.IH [of "collapse_step acc x"] show ?case by simp
qed

lemma set_collapse: "set (collapse xs) = set xs"
  by (simp add: collapse_def set_foldl_collapse)

lemma buildConversionPath_cases:
  "buildConversionPath S t lb = [''UNKNOWN''] \<or>
   buildConversionPath S t lb =
     collapse (filter (\<lambda>s. s \<noteq> []) (map pathToken (windowEntries S t lb)))"
  by (simp add: buildConversionPath_def Let_def)

lemma distinct_adj_buildConversionPath: "distinct_adj (buildConversionPath S t lb)"
  using buildConversionPath_cases [of S t lb] by (auto simp: distinct_adj_collapse)

text \<open>
  Claim C1. For every source history, conversion timestamp and lookback argument, the path
  that \<open>buildConversionPath\<close> returns has no two adjacent equal tokens; collapsing it
  again leaves it unchanged, and collapsing is idempotent on every token list.
\<close>

theorem buildConversionPath_no_adjacent_duplicates:
  "(\<forall>i. Suc i < length (buildConversionPath S t lb) \<longrightarrow>
        buildConversionPath S t lb ! i \<noteq> buildConversionPath S t lb ! Suc i)
   \<and> collapse (buildConversionPath S t lb) = buildConversionPath S t lb
   \<and> collapse (collapse xs) = collapse xs"
proof (intro conjI)
  show "\<forall>i. Suc i < length (buildConversionPath S t lb) \<longrightarrow>
        buildConversionPath S t lb ! i \<noteq> buildConversionPath S t lb ! Suc i"
    using distinct_adj_buildConversionPath [of S t lb] by (simp only: distinct_adj_conv_nth)
  show "collapse (buildConversionPath S t lb) = buildConversionPath S t lb"
    by (rule collapse_fixed) (rule distinct_adj_buildConversionPath)
  show "collapse (collapse xs) = collapse xs"
    by (rule collapse_fixed) (rule distinct_adj_collapse)
qed

theorem buildConversionPath_no_adjacent_duplicates_witness:
  "buildConversionPath
       [\<lparr>timestamp = Some 100, hvalue = Some ''ORGANIC_SEARCH''\<rparr>,
        \<lparr>timestamp = Some 200, hvalue = Some ''ORGANIC_SEARCH''\<rparr>,
        \<lparr>timestamp = Some 300, hvalue = Some ''DIRECT_TRAFFIC''\<rparr>] 400 (Some 90)
     = [''ORGANIC_SEARCH'', ''DIRECT_TRAFFIC'']
   \<and> buildConversionPath
       [\<lparr>timestamp = Some 100, hvalue = Some ''ORGANIC_SEARCH''\<rparr>,
        \<lparr>timestamp = Some 200, hvalue = Some ''ORGANIC_SEARCH''\<rparr>,
        \<lparr>timestamp = Some 300, hvalue = Some ''DIRECT_TRAFFIC''\<rparr>] 400 (Some 90) ! 0
     \<noteq> buildConversionPath
       [\<lparr>timestamp = Some 100, hvalue = Some ''ORGANIC_SEARCH''\<rparr>,
        \<lparr>timestamp = Some 200, hvalue = Some ''ORGANIC_SEARCH''\<rparr>,
        \<lparr>timestamp = Some 300, hvalue = Some ''DIRECT_TRAFFIC''\<rparr>] 400 (Some 90) ! Suc 0"
proof -
  let ?h = "[\<lparr>timestamp = Some 100, hvalue = Some ''ORGANIC_SEARCH''\<rparr>,
        \<lparr>timestamp = Some 200, hvalue = Some ''ORGANIC_SEARCH''\<rparr>,
        \<lparr>timestamp = Some 300, hvalue = Some ''DIRECT_TRAFFIC''\<rparr>]"
  have e: "buildConversionPath ?h 400 (Some 90) = [''ORGANIC_SEARCH'', ''DIRECT_TRAFFIC'']"
    by code_simp
  then have "Suc 0 < length (buildConversionPath ?h 400 (Some 90))" by simp
  with buildConversionPath_no_adjacent_duplicates [of ?h 400 "Some 90" "[]"]
  have "buildConversionPath ?h 400 (Some 90) ! 0 \<noteq> buildConversionPath ?h 400 (Some 90) ! Suc 0"
    by blast
  with e show ?thesis by blast
qed

subsection \<open>The empty window\<close>

lemma windowEntries_empty:
  assumes "\<forall>e\<in>set S. t < entryTs e"
  shows "windowEntries S t lb = []"
proof -
  have "filter (inWindow (t - lookbackMs lb) t) S = []"
    using assms by (auto simp: filter_empty_conv inWindow_def)
  then show ?thesis by (simp add: windowEntries_def)
qed

text \<open>
  Claim C4. \<open>buildConversionPath\<close> returns the sentinel path \<open>["UNKNOWN"]\<close> for the empty
  history, and for every history all of whose entries have a timestamp strictly greater than
  the conversion timestamp.
\<close>

theorem buildConversionPath_unknown_when_window_empty:
  "buildConversionPath [] t lb = [''UNKNOWN'']
   \<and> ((\<forall>e\<in>set S. t < entryTs e) \<longrightarrow> buildConversionPath S t lb = [''UNKNOWN''])"
  by (simp add: buildConversionPath_def windowEntries_empty) 

theorem buildConversionPath_unknown_when_window_empty_witness:
  "buildConversionPath [] 200 (Some 90) = [''UNKNOWN'']
   \<and> buildConversionPath [\<lparr>timestamp = Some 500, hvalue = Some ''DIRECT_TRAFFIC''\<rparr>] 400 (Some 90)
       = [''UNKNOWN'']"
proof -
  have "\<forall>e\<in>set [\<lparr>timestamp = Some 500, hvalue = Some ''DIRECT_TRAFFIC''\<rparr>]. 400 < entryTs e"
    by (simp add: entryTs_def)
  with buildConversionPath_unknown_when_window_empty
         [of 200 "Some 90" "[\<lparr>timestamp = Some 500, hvalue = Some ''DIRECT_TRAFFIC''\<rparr>]"]
       buildConversionPath_unknown_when_window_empty
         [of 400 "Some 90" "[\<lparr>timestamp = Some 500, hvalue = Some ''DIRECT_TRAFFIC''\<rparr>]"]
  show ?thesis by blast
qed

subsection \<open>The lookback window\<close>

lemma lookbackMs_default:
  "lookbackMs None = 7776000000" "lookbackMs (Some 0) = 7776000000"
  "lookbackMs (Some 90) = 7776000000"
  by (simp_all add: lookbackMs_def MCF_LOOKBACK_DAYS_def)

lemma inWindow_fun:
  "inWindow a t = (\<lambda>e. a \<le> entryTs e \<and> entryTs e \<le> t)"
  by (rule ext) (simp add: inWindow_def)

lemma set_windowEntries:
  "set (windowEntries S t lb) =
     {e \<in> set S. t - lookbackMs lb \<le> entryTs e \<and> entryTs e \<le> t}"
  by (auto simp: windowEntries_def inWindow_def Let_def)

text \<open>
  Claim C6 says that without a lookback argument the whole history before the conversion is
  eligible. The source falls back to \<open>MCF_LOOKBACK_DAYS\<close>: an entry one millisecond after
  the epoch is dropped for a conversion 90 days and 2 ms after the epoch, with the argument
  absent or zero.
\<close>

theorem buildConversionPath_absent_lookback_counterexample:
  "0 < entryTs \<lparr>timestamp = Some 1, hvalue = Some ''PAID_SEARCH''\<rparr>
   \<and> entryTs \<lparr>timestamp = Some 1, hvalue = Some ''PAID_SEARCH''\<rparr> \<le> 7776000002
   \<and> buildConversionPath [\<lparr>timestamp = Some 1, hvalue = Some ''PAID_SEARCH''\<rparr>] 7776000002 None
       = [''UNKNOWN'']
   \<and> buildConversionPath [\<lparr>timestamp = Some 1, hvalue = Some ''PAID_SEARCH''\<rparr>] 7776000002 (Some 0)
       = [''UNKNOWN'']"
  by code_simp

lemma set_journeyEntries:
  "set (journeyEntries S t) = {e \<in> set S. 0 < entryTs e \<and> entryTs e \<le> t}"
  by (auto simp: journeyEntries_def)

lemma buildConversionPath_fullJourney_tokens:
  assumes "buildConversionPath_fullJourney S t \<noteq> [''UNKNOWN'']"
    and "k \<in> set (buildConversionPath_fullJourney S t)"
  shows "\<exists>e\<in>set S. 0 < entryTs e \<and> entryTs e \<le> t \<and> pathToken e = k"
proof -
  from assms(1)
  have "buildConversionPath_fullJourney S t =
     collapse (filter (\<lambda>s. s \<noteq> []) (map pathToken (journeyEntries S t)))"
    by (simp add: buildConversionPath_fullJourney_def Let_def split: if_splits)
  with assms(2) have "k \<in> pathToken ` set (journeyEntries S t)"
    by (auto simp: set_collapse)
  then show ?thesis by (auto simp: set_journeyEntries)
qed

lemma buildConversionPath_fullJourney_old_entry:
  "buildConversionPath_fullJourney
     [\<lparr>timestamp = Some 1, hvalue = Some ''PAID_SEARCH''\<rparr>] 7776000002 = [''PAID_SEARCH'']
   \<and> buildConversionPath_fullJourney
     [\<lparr>timestamp = Some 0, hvalue = Some ''PAID_SEARCH''\<rparr>,
      \<lparr>timestamp = Some 100, hvalue = Some ''ORGANIC_SEARCH''\<rparr>] 200 = [''ORGANIC_SEARCH'']"
  by code_simp

text \<open>
  Claim C6, as the source has it: with an absent or zero \<open>lookbackDays\<close> the three-argument
  \<open>buildConversionPath\<close> uses the 90-day window; its eligible entries are exactly those with
  \<open>conversionTimestamp - 90 days \<le> timestamp \<le> conversionTimestamp\<close>. The whole history
  before the conversion, every entry with \<open>0 < timestamp \<le> conversionTimestamp\<close>, is
  eligible in the two-argument version, which has no lookback parameter.
\<close>

theorem buildConversionPath_absent_lookback_is_90_days:
  "buildConversionPath S t None = buildConversionPath S t (Some 90)
   \<and> buildConversionPath S t (Some 0) = buildConversionPath S t (Some 90)
   \<and> set (windowEntries S t None) =
       {e \<in> set S. t - 90 * 24 * 60 * 60 * 1000 \<le> entryTs e \<and> entryTs e \<le> t}
   \<and> set (journeyEntries S t) = {e \<in> set S. 0 < entryTs e \<and> entryTs e \<le> t}"
  by (simp add: buildConversionPath_def windowEntries_def inWindow_fun lookbackMs_default
        set_journeyEntries)

lemma windowEntries_filter:
  "windowEntries (filter (\<lambda>e. t - lookbackMs lb \<le> entryTs e \<and> entryTs e \<le> t) S) t lb
     = windowEntries S t lb"
  by (simp add: windowEntries_def inWindow_fun Let_def cong: conj_cong)

lemma buildConversionPath_tokens:
  assumes "buildConversionPath S t lb \<noteq> [''UNKNOWN'']"
    and "k \<in> set (buildConversionPath S t lb)"
  shows "\<exists>e\<in>set S. t - lookbackMs lb \<le> entryTs e \<and> entryTs e \<le> t \<and> pathToken e = k"
proof -
  from assms(1) buildConversionPath_cases [of S t lb]
  have "buildConversionPath S t lb =
     collapse (filter (\<lambda>s. s \<noteq> []) (map pathToken (windowEntries S t lb)))" by blast
  with assms(2) have "k \<in> pathToken ` set (windowEntries S t lb)"
    by (auto simp: set_collapse)
  then show ?thesis by (auto simp: set_windowEntries)
qed

text \<open>
  Claim C7 says that no entry with timestamp \<open>0\<close> or without timestamp contributes a token.
  The lower bound of the source is the window start, not \<open>0\<close>: for a conversion at
  \<open>200\<close> ms and a 90-day window the window start is negative, and the value of such an
  entry is the token of the path.
\<close>

theorem buildConversionPath_counterexample_ts0:
  "buildConversionPath [\<lparr>timestamp = Some 0, hvalue = Some ''PAID_SEARCH''\<rparr>] 200 (Some 90)
     = [''PAID_SEARCH'']
   \<and> buildConversionPath [\<lparr>timestamp = None, hvalue = Some ''PAID_SEARCH''\<rparr>] 200 (Some 90)
     = [''PAID_SEARCH'']"
  by code_simp

text \<open>
  Claim C7, as the source has it: every token of a path other than the sentinel is the
  normalised value of an entry with
  \<open>conversionTimestamp - lookbackMs \<le> timestamp \<le> conversionTimestamp\<close>; the entries outside
  that window never change the path; and when the window start is positive every entry of
  the window has \<open>0 < timestamp \<le> conversionTimestamp\<close>.
\<close>

theorem buildConversionPath_entries_in_window:
  "(buildConversionPath S t lb = [''UNKNOWN'']
      \<or> (\<forall>k\<in>set (buildConversionPath S t lb).
            \<exists>e\<in>set S. t - lookbackMs lb \<le> entryTs e \<and> entryTs e \<le> t \<and> pathToken e = k))
   \<and> buildConversionPath (filter (\<lambda>e. t - lookbackMs lb \<le> entryTs e \<and> entryTs e \<le> t) S) t lb
       = buildConversionPath S t lb
   \<and> (0 < t - lookbackMs lb \<longrightarrow>
        (\<forall>e\<in>set (windowEntries S t lb). 0 < entryTs e \<and> entryTs e \<le> t))"
proof (intro conjI)
  show "buildConversionPath S t lb = [''UNKNOWN'']
      \<or> (\<forall>k\<in>set (buildConversionPath S t lb).
            \<exists>e\<in>set S. t - lookbackMs lb \<le> entryTs e \<and> entryTs e \<le> t \<and> pathToken e = k)"
    using buildConversionPath_tokens [of S t lb] by blast
  show "buildConversionPath (filter (\<lambda>e. t - lookbackMs lb \<le> entryTs e \<and> entryTs e \<le> t) S) t lb
       = buildConversionPath S t lb"
    by (simp only: buildConversionPath_def windowEntries_filter)
  show "0 < t - lookbackMs lb \<longrightarrow>
        (\<forall>e\<in>set (windowEntries S t lb). 0 < entryTs e \<and> entryTs e \<le> t)"
    by (auto simp: set_windowEntries)
qed

theorem buildConversionPath_entries_in_window_witness:
  "buildConversionPath
       [\<lparr>timestamp = Some 1000, hvalue = Some ''PAID_SEARCH''\<rparr>,
        \<lparr>timestamp = Some 5000000000, hvalue = Some ''ORGANIC_SEARCH''\<rparr>,
        \<lparr>timestamp = Some 10000000001, hvalue = Some ''DIRECT_TRAFFIC''\<rparr>]
       10000000000 (Some 90)
     = [''ORGANIC_SEARCH'']
   \<and> (\<exists>e\<in>set [\<lparr>timestamp = Some 1000, hvalue = Some ''PAID_SEARCH''\<rparr>,
                \<lparr>timestamp = Some 5000000000, hvalue = Some ''ORGANIC_SEARCH''\<rparr>,
                \<lparr>timestamp = Some 10000000001, hvalue = Some ''DIRECT_TRAFFIC''\<rparr>].
          10000000000 - lookbackMs (Some 90) \<le> entryTs e \<and> entryTs e \<le> 10000000000
          \<and> pathToken e = ''ORGANIC_SEARCH'')
   \<and> buildConversionPath
       [\<lparr>timestamp = Some 5000000000, hvalue = Some ''ORGANIC_SEARCH''\<rparr>]
       10000000000 (Some 90)
     = [''ORGANIC_SEARCH'']"
proof -
  let ?S = "[\<lparr>timestamp = Some 1000, hvalue = Some ''PAID_SEARCH''\<rparr>,
        \<lparr>timestamp = Some 5000000000, hvalue = Some ''ORGANIC_SEARCH''\<rparr>,
        \<lparr>timestamp = Some 10000000001, hvalue = Some ''DIRECT_TRAFFIC''\<rparr>]"
  have p: "buildConversionPath ?S 10000000000 (Some 90) = [''ORGANIC_SEARCH'']"
    by code_simp
  have f: "filter (\<lambda>e. 10000000000 - lookbackMs (Some 90) \<le> entryTs e \<and> entryTs e \<le> 10000000000) ?S
        = [\<lparr>timestamp = Some 5000000000, hvalue = Some ''ORGANIC_SEARCH''\<rparr>]"
    by (simp add: lookbackMs_def MCF_LOOKBACK_DAYS_def entryTs_def)
  from p have n: "buildConversionPath ?S 10000000000 (Some 90) \<noteq> [''UNKNOWN'']" by simp
  from buildConversionPath_entries_in_window [of ?S 10000000000 "Some 90"] n p f
  show ?thesis by (simp only: list.set_intros list.set ball_simps) auto
qed

subsection \<open>Path keys\<close>

lemma takeWhile_sep: "c \<notin> set x \<Longrightarrow> takeWhile (\<lambda>a. a \<noteq> c) (x @ c # r) = x"
  by (induction x) auto

lemma sep_split:
  assumes "c \<notin> set x" "c \<notin> set y" "x @ c # r = y @ c # s"
  shows "x = y \<and> r = s"
proof -
  have "takeWhile (\<lambda>a. a \<noteq> c) (x @ c # r) = x" using assms(1) by (rule takeWhile_sep)
  moreover have "takeWhile (\<lambda>a. a \<noteq> c) (y @ c # s) = y" using assms(2) by (rule takeWhile_sep)
  ultimately have "x = y" using assms(3) by simp
  with assms(3) show ?thesis by simp
qed

lemma join_Cons:
  "join sep (x # xs) = (if xs = [] then x else x @ sep @ join sep xs)"
  by (cases xs) simp_all

lemma join_inj:
  assumes "p1 \<noteq> []" "p2 \<noteq> []"
    and "\<forall>s\<in>set p1 \<union> set p2. c \<notin> set s"
    and "join [c] p1 = join [c] p2"
  shows "p1 = p2"
  using assms
proof (induction p1 arbitrary: p2)
  case Nil
  then show ?case by simp
next
  case (Cons x xs)
  from Cons.prems(2) obtain y ys where p2: "p2 = y # ys" by (cases p2) auto
  from Cons.prems(3) p2 have cx: "c \<notin> set x" and cy: "c \<notin> set y" by auto
  from Cons.prems(4) p2
  have "join [c] (x # xs) = join [c] (y # ys)" by simp
  then have eq: "(if xs = [] then x else x @ c # join [c] xs)
          = (if ys = [] then y else y @ c # join [c] ys)"
    by (simp only: join_Cons append_Cons append_Nil)
  show ?case
  proof (cases "xs = []")
    case True
    show ?thesis
    proof (cases "ys = []")
      case True
      with \<open>xs = []\<close> eq p2 show ?thesis by simp
    next
      case False
      with \<open>xs = []\<close> eq have "x = y @ c # join [c] ys" by simp
      then have "c \<in> set x" by simp
      with cx show ?thesis by simp
    qed
  next
    case False
    show ?thesis
    proof (cases "ys = []")
      case True
      with False eq have "y = x @ c # join [c] xs" by simp
      then have "c \<in> set y" by simp
      with cy show ?thesis by simp
    next
      case F2: False
      with False eq have "x @ c # join [c] xs = y @ c # join [c] ys" by simp
      from sep_split [OF cx cy this] have xy: "x = y" and j: "join [c] xs = join [c] ys"
        by simp_all
      from Cons.prems(3) p2 have "\<forall>s\<in>set xs \<union> set ys. c \<notin> set s" by auto
      with False F2 j have "xs = ys" by (intro Cons.IH)
      with xy p2 show ?thesis by simp
    qed
  qed
qed

text \<open>
  Claim C9 says that \<open>pathToKey\<close> is injective on all paths. A token that contains the
  separator collides with the path split at it.
\<close>

theorem pathToKey_not_injective_counterexample:
  "pathToKey [''A>B''] = pathToKey [''A'', ''B''] \<and> [''A>B''] \<noteq> [''A'', ''B'']"
  by (simp add: pathToKey_def)

text \<open>
  Claim C9, as the source has it: on non-empty paths whose tokens do not contain \<open>>\<close>,
  two paths have the same key iff they are the same token sequence.
\<close>

theorem pathToKey_injective_without_separator:
  assumes "p1 \<noteq> []" "p2 \<noteq> []"
    and "\<forall>s\<in>set p1 \<union> set p2. CHR ''>'' \<notin> set s"
  shows "pathToKey p1 = pathToKey p2 \<longleftrightarrow> p1 = p2"
  using join_inj [OF assms] by (auto simp: pathToKey_def)

theorem pathToKey_injective_without_separator_witness:
  "(pathToKey [''ORGANIC_SEARCH'', ''DIRECT_TRAFFIC''] = pathToKey [''ORGANIC_SEARCH'', ''DIRECT_TRAFFIC''])
   \<and> pathToKey [''ORGANIC_SEARCH'', ''DIRECT_TRAFFIC''] \<noteq> pathToKey [''ORGANIC_SEARCH'']"
proof -
  have a: "[''ORGANIC_SEARCH'', ''DIRECT_TRAFFIC''] \<noteq> []" and b: "[''ORGANIC_SEARCH''] \<noteq> []"
    by simp_all
  have c: "\<forall>s\<in>set [''ORGANIC_SEARCH'', ''DIRECT_TRAFFIC''] \<union> set [''ORGANIC_SEARCH''].
             CHR ''>'' \<notin> set s"
    by simp
  from pathToKey_injective_without_separator [OF a b c]
  show ?thesis by simp
qed

section \<open>Properties of the contribution score\<close>

lemma foldl_countStep:
  "foldl (countStep M) (a, b) es =
     (a + length (filter (\<lambda>e. trim (entryValue e) \<noteq> []) es),
      b + length (filter (\<lambda>e. trim (entryValue e) \<noteq> [] \<and> trim (entryValue e) \<in> M) es))"
  by (induction es arbitrary: a b) (simp_all add: countStep_def Let_def)

lemma length_filter_sort_key:
  "length (filter P (sort_key f xs)) = length (filter P xs)"
proof -
  have "mset (filter P (sort_key f xs)) = mset (filter P xs)" by simp
  then show ?thesis by (metis size_mset)
qed

lemma computeMarketingContribution_counts:
  "computeMarketingContribution S M =
     (let tc = length (filter (\<lambda>e. trim (entryValue e) \<noteq> []) S);
          mc = length (filter (\<lambda>e. trim (entryValue e) \<noteq> [] \<and> trim (entryValue e) \<in> M) S)
      in \<lparr>percent = (if 0 < tc then fdiv (of_nat mc) (of_nat tc) else 0),
          totalChanges = tc, marketingChanges = mc\<rparr>)"
proof (cases "S = []")
  case True
  then show ?thesis by (simp add: computeMarketingContribution_def)
next
  case False
  then have "sort_key entryTs S \<noteq> []" by (metis length_sort length_0_conv)
  then show ?thesis
    by (simp add: computeMarketingContribution_def Let_def foldl_countStep length_filter_sort_key)
qed

text \<open>
  Claim C5 says that an entry counts toward the numerator iff its trimmed, upper-cased value
  is in the marketing set. The source trims the value and looks it up as it is: the entry
  \<open>referrals\<close> is counted in the denominator only, though its upper-cased value is in the
  set.
\<close>

theorem computeMarketingContribution_case_sensitive_counterexample:
  "toUpperCase (trim (entryValue \<lparr>timestamp = Some 1, hvalue = Some ''referrals''\<rparr>)) \<in> {''REFERRALS''}
   \<and> computeMarketingContribution [\<lparr>timestamp = Some 1, hvalue = Some ''referrals''\<rparr>] {''REFERRALS''}
       = \<lparr>percent = 0, totalChanges = 1, marketingChanges = 0\<rparr>"
  by code_simp

text \<open>
  Claim C5, as the source has it (policy (a)): every entry with a non-empty trimmed value
  counts one unit toward \<open>totalChanges\<close>; it counts toward \<open>marketingChanges\<close> iff its
  trimmed value, case preserved, is in the marketing set; \<open>percent\<close> is the quotient of the
  two counts, and \<open>0\<close> when \<open>totalChanges\<close> is \<open>0\<close>. The history REFERRALS, OFFLINE,
  PAID_SEARCH, OFFLINE with the default marketing set gives 4, 2 and 0.5.
\<close>

theorem computeMarketingContribution_policy_a:
  "totalChanges (computeMarketingContribution S M)
     = length (filter (\<lambda>e. trim (entryValue e) \<noteq> []) S)
   \<and> marketingChanges (computeMarketingContribution S M)
     = length (filter (\<lambda>e. trim (entryValue e) \<noteq> [] \<and> trim (entryValue e) \<in> M) S)
   \<and> percent (computeMarketingContribution S M)
     = (if totalChanges (computeMarketingContribution S M) = 0 then 0
        else fdiv (of_nat (marketingChanges (computeMarketingContribution S M)))
                  (of_nat (totalChanges (computeMarketingContribution S M))))
   \<and> computeMarketingContribution
       [\<lparr>timestamp = Some 1, hvalue = Some ''REFERRALS''\<rparr>,
        \<lparr>timestamp = Some 2, hvalue = Some ''OFFLINE''\<rparr>,
        \<lparr>timestamp = Some 3, hvalue = Some ''PAID_SEARCH''\<rparr>,
        \<lparr>timestamp = Some 4, hvalue = Some ''OFFLINE''\<rparr>] DEFAULT_MARKETING_SOURCES
     = \<lparr>percent = 1 / 2, totalChanges = 4, marketingChanges = 2\<rparr>"
proof (intro conjI)
  show "computeMarketingContribution
       [\<lparr>timestamp = Some 1, hvalue = Some ''REFERRALS''\<rparr>,
        \<lparr>timestamp = Some 2, hvalue = Some ''OFFLINE''\<rparr>,
        \<lparr>timestamp = Some 3, hvalue = Some ''PAID_SEARCH''\<rparr>,
        \<lparr>timestamp = Some 4, hvalue = Some ''OFFLINE''\<rparr>] DEFAULT_MARKETING_SOURCES
     = \<lparr>percent = 1 / 2, totalChanges = 4, marketingChanges = 2\<rparr>"
    by code_simp
qed (simp_all add: computeMarketingContribution_counts Let_def)

text \<open>
  Claim C10. \<open>computeMarketingContribution\<close> is invariant under permutation of the history:
  two lists with the same entries in any order give the same \<open>percent\<close>,
  \<open>totalChanges\<close> and \<open>marketingChanges\<close>.
\<close>

theorem computeMarketingContribution_permutation_invariant:
  assumes "mset xs = mset ys"
  shows "computeMarketingContribution xs M = computeMarketingContribution ys M"
proof -
  have "length (filter P xs) = length (filter P ys)" for P :: "historyEntry \<Rightarrow> bool"
  proof -
    from assms have "mset (filter P xs) = mset (filter P ys)" by (simp only: mset_filter)
    then show ?thesis by (metis size_mset)
  qed
  then show ?thesis by (simp only: computeMarketingContribution_counts)
qed

theorem computeMarketingContribution_permutation_invariant_witness:
  "computeMarketingContribution
       [\<lparr>timestamp = Some 2, hvalue = Some ''OFFLINE''\<rparr>,
        \<lparr>timestamp = Some 1, hvalue = Some ''REFERRALS''\<rparr>] DEFAULT_MARKETING_SOURCES
   = computeMarketingContribution
       [\<lparr>timestamp = Some 1, hvalue = Some ''REFERRALS''\<rparr>,
        \<lparr>timestamp = Some 2, hvalue = Some ''OFFLINE''\<rparr>] DEFAULT_MARKETING_SOURCES"
proof -
  have "mset [\<lparr>timestamp = Some 2, hvalue = Some ''OFFLINE''\<rparr>,
              \<lparr>timestamp = Some 1, hvalue = Some ''REFERRALS''\<rparr>]
      = mset [\<lparr>timestamp = Some 1, hvalue = Some ''REFERRALS''\<rparr>,
              \<lparr>timestamp = Some 2, hvalue = Some ''OFFLINE''\<rparr>]"
    by simp
  then show ?thesis by (rule computeMarketingContribution_permutation_invariant)
qed

section \<open>Properties of the closed-won stages\<close>

lemma foldl_stage_ids:
  "foldl (\<lambda>acc s. if isClosedWon s then insert (stage_id s) acc else acc) acc ss
     = acc \<union> {stage_id s |s. s \<in> set ss \<and> isClosedWon s}"
  by (induction ss arbitrary: acc) auto

lemma foldl_pipeline_ids:
  "foldl (\<lambda>acc p. foldl (\<lambda>acc s. if isClosedWon s then insert (stage_id s) acc else acc)
                        acc (stages p)) acc ps
     = acc \<union> {stage_id s |s p. p \<in> set ps \<and> s \<in> set (stages p) \<and> isClosedWon s}"
proof (induction ps arbitrary: acc)
  case Nil
  then show ?case by simp
next
  case (Cons p ps)
  let ?inner = "\<lambda>acc s. if isClosedWon s then insert (stage_id s) acc else acc"
  let ?outer = "\<lambda>acc p. foldl ?inner acc (stages p)"
  have "foldl ?outer acc (p # ps) = foldl ?outer (foldl ?inner acc (stages p)) ps" by simp
  also have "\<dots> = foldl ?inner acc (stages p)
       \<union> {stage_id s |s p. p \<in> set ps \<and> s \<in> set (stages p) \<and> isClosedWon s}"
    by (rule Cons.IH)
  also have "foldl ?inner acc (stages p)
       = acc \<union> {stage_id s |s. s \<in> set (stages p) \<and> isClosedWon s}"
    by (rule foldl_stage_ids)
  finally show ?case by auto
qed

lemma collectStageIds_eq:
  "collectStageIds results
     = {stage_id s |s p. p \<in> set results \<and> s \<in> set (stages p) \<and> isClosedWon s}"
  by (simp add: collectStageIds_def foldl_pipeline_ids)

text \<open>
  Claim C8 says that a stage is closed-won iff it is closed and its probability is exactly
  \<open>1.0\<close>. The guard of the source is \<open>>= 1.0\<close>: a closed stage of probability \<open>1.5\<close> is
  in the returned set.
\<close>

theorem getClosedWonStageIds_probability_above_one_counterexample:
  "parsedProbability \<lparr>isClosed = Some ''true'', probability = Some (3 / 2)\<rparr> \<noteq> 1
   \<and> fst (getClosedWonStageIds Map.empty ''42'' 0 0
         (Some [\<lparr>stages = [\<lparr>stage_id = ''won'',
                               metadata = Some \<lparr>isClosed = Some ''true'',
                                               probability = Some (3 / 2)\<rparr>\<rparr>]\<rparr>]))
       = {''won''}"
  by (simp add: getClosedWonStageIds_def cacheFresh_def collectStageIds_def isClosedWon_def
        stageMeta_def parsedProbability_def Let_def)

text \<open>
  Claim C8, as the source has it: when the cache holds no fresh entry and the pipelines
  request succeeds, a stage id is in the returned set iff some stage of that id has
  \<open>isClosed\<close> equal to the string \<open>"true"\<close> and a parsed probability of at least \<open>1.0\<close>.
\<close>

theorem getClosedWonStageIds_closed_and_probability_at_least_one:
  assumes "\<not> cacheFresh pipelineCache key now"
  shows "sid \<in> fst (getClosedWonStageIds pipelineCache key now now' (Some results))
     \<longleftrightarrow> (\<exists>p\<in>set results. \<exists>s\<in>set (stages p).
            stage_id s = sid \<and> isClosed (stageMeta s) = Some ''true''
            \<and> 1 \<le> parsedProbability (stageMeta s))"
  using assms
  by (auto simp: getClosedWonStageIds_def collectStageIds_eq isClosedWon_def Let_def)

theorem getClosedWonStageIds_closed_and_probability_at_least_one_witness:
  "''won'' \<in> fst (getClosedWonStageIds Map.empty ''42'' 0 0
         (Some [\<lparr>stages = [\<lparr>stage_id = ''won'',
                               metadata = Some \<lparr>isClosed = Some ''true'',
                                               probability = Some 1\<rparr>\<rparr>,
                            \<lparr>stage_id = ''lost'',
                               metadata = Some \<lparr>isClosed = Some ''true'',
                                               probability = Some 0\<rparr>\<rparr>,
                            \<lparr>stage_id = ''open'',
                               metadata = Some \<lparr>isClosed = Some ''false'',
                                               probability = Some 1\<rparr>\<rparr>]\<rparr>]))
   \<and> ''lost'' \<notin> fst (getClosedWonStageIds Map.empty ''42'' 0 0
         (Some [\<lparr>stages = [\<lparr>stage_id = ''won'',
                               metadata = Some \<lparr>isClosed = Some ''true'',
                                               probability = Some 1\<rparr>\<rparr>,
                            \<lparr>stage_id = ''lost'',
                               metadata = Some \<lparr>isClosed = Some ''true'',
                                               probability = Some 0\<rparr>\<rparr>,
                            \<lparr>stage_id = ''open'',
                               metadata = Some \<lparr>isClosed = Some ''false'',
                                               probability = Some 1\<rparr>\<rparr>]\<rparr>]))
   \<and> ''open'' \<notin> fst (getClosedWonStageIds Map.empty ''42'' 0 0
         (Some [\<lparr>stages = [\<lparr>stage_id = ''won'',
                               metadata = Some \<lparr>isClosed = Some ''true'',
                                               probability = Some 1\<rparr>\<rparr>,
                            \<lparr>stage_id = ''lost'',
                               metadata = Some \<lparr>isClosed = Some ''true'',
                                               probability = Some 0\<rparr>\<rparr>,
                            \<lparr>stage_id = ''open'',
                               metadata = Some \<lparr>isClosed = Some ''false'',
                                               probability = Some 1\<rparr>\<rparr>]\<rparr>]))"
proof -
  have nf: "\<not> cacheFresh Map.empty ''42'' 0" by (simp add: cacheFresh_def)
  note t = getClosedWonStageIds_closed_and_probability_at_least_one [OF nf, of _ 0]
  show ?thesis
    by (simp add: t stageMeta_def parsedProbability_def)
qed

section \<open>Properties of the aggregation and of the ranking\<close>

subsection \<open>The bucket of one key\<close>

lemma map_of_accumulateAt:
  "map_of (accumulateAt k c al) k' =
     (if k' = k
      then Some (bump c (case map_of al k of None \<Rightarrow> newBucket (cpath c) | Some b \<Rightarrow> b))
      else map_of al k')"
  by (induction al) auto

lemma map_of_foldl_accumulate:
  "map_of (foldl accumulate al cs) k =
     (case filter (\<lambda>c. pathToKey (cpath c) = k) cs of
        [] \<Rightarrow> map_of al k
      | h # hs \<Rightarrow>
          Some (foldl (\<lambda>b c. bump c b)
                  (case map_of al k of None \<Rightarrow> newBucket (cpath h) | Some b \<Rightarrow> b)
                  (h # hs)))"
proof (induction cs arbitrary: al)
  case Nil
  then show ?case by simp
next
  case (Cons c cs)
  show ?case
  proof (cases "pathToKey (cpath c) = k")
    case True
    then have "map_of (accumulate al c) k =
        Some (bump c (case map_of al k of None \<Rightarrow> newBucket (cpath c) | Some b \<Rightarrow> b))"
      by (simp add: accumulate_def map_of_accumulateAt)
    with True Cons.IH [of "accumulate al c"] show ?thesis
      by (simp split: list.splits)
  next
    case False
    then have "map_of (accumulate al c) k = map_of al k"
      by (simp add: accumulate_def map_of_accumulateAt)
    with False Cons.IH [of "accumulate al c"] show ?thesis
      by (simp split: list.splits)
  qed
qed

lemma conversions_foldl_bump:
  "conversions (foldl (\<lambda>b c. bump c b) b cs) = conversions b + length cs"
  by (induction cs arbitrary: b) (simp_all add: bump_def)

lemma totalValue_foldl_bump:
  "totalValue (foldl (\<lambda>b c. bump c b) b cs) = foldl fadd (totalValue b) (map amount cs)"
  by (induction cs arbitrary: b) (simp_all add: bump_def)

lemma set_addCurrency:
  "set (addCurrency c cs) = set cs \<union> {s. c = Some s \<and> s \<noteq> []}"
  by (auto simp: addCurrency_def split: option.splits)

lemma currencies_foldl_bump:
  "set (currencies (foldl (\<lambda>b c. bump c b) b cs))
     = set (currencies b) \<union> {s. Some s \<in> currency ` set cs \<and> s \<noteq> []}"
proof (induction cs arbitrary: b)
  case Nil
  then show ?case by simp
next
  case (Cons c cs)
  have "set (currencies (bump c b)) = set (currencies b) \<union> {s. currency c = Some s \<and> s \<noteq> []}"
    by (simp add: bump_def set_addCurrency)
  with Cons.IH [of "bump c b"] show ?case by auto
qed

lemma aggregate_at:
  "map_of (aggregate cs) k =
     (let hits = filter (\<lambda>c. pathToKey (cpath c) = k) cs
      in if hits = [] then None
         else Some (foldl (\<lambda>b c. bump c b) (newBucket (cpath (hd hits))) hits))"
  by (simp add: aggregate_def map_of_foldl_accumulate Let_def split: list.splits)

lemma aggregate_conversions:
  "map_option conversions (map_of (aggregate cs) k) =
     (let hits = filter (\<lambda>c. pathToKey (cpath c) = k) cs
      in if hits = [] then None else Some (length hits))"
  by (simp add: aggregate_at Let_def conversions_foldl_bump newBucket_def)

lemma aggregate_currencies:
  "map_option (\<lambda>b. set (currencies b)) (map_of (aggregate cs) k) =
     (let hits = filter (\<lambda>c. pathToKey (cpath c) = k) cs
      in if hits = [] then None
         else Some {s. Some s \<in> currency ` set hits \<and> s \<noteq> []})"
  by (simp add: aggregate_at Let_def currencies_foldl_bump newBucket_def)

lemma aggregate_totalValue:
  "map_option totalValue (map_of (aggregate cs) k) =
     (let hits = filter (\<lambda>c. pathToKey (cpath c) = k) cs
      in if hits = [] then None else Some (foldl fadd 0 (map amount hits)))"
  by (simp add: aggregate_at Let_def totalValue_foldl_bump newBucket_def)

lemma sum_list_abs_filter_le:
  fixes f :: "'a \<Rightarrow> rat"
  shows "(\<Sum>x\<leftarrow>filter P xs. \<bar>f x\<bar>) \<le> (\<Sum>x\<leftarrow>xs. \<bar>f x\<bar>)"
  by (induction xs) (auto intro: order_trans)

lemma exact_totalValue:
  assumes "\<forall>c\<in>set cs. amount c \<in> \<int>" "(\<Sum>c\<leftarrow>cs. \<bar>amount c\<bar>) \<le> 2 ^ 53"
  shows "foldl fadd 0 (map amount (filter P cs)) = (\<Sum>c\<leftarrow>filter P cs. amount c)"
proof -
  have "(\<Sum>v\<leftarrow>map amount (filter P cs). \<bar>v\<bar>) = (\<Sum>c\<leftarrow>filter P cs. \<bar>amount c\<bar>)"
    by (simp add: comp_def)
  also have "\<dots> \<le> (\<Sum>c\<leftarrow>cs. \<bar>amount c\<bar>)" by (rule sum_list_abs_filter_le)
  also note assms(2)
  finally have b: "\<bar>0::rat\<bar> + (\<Sum>v\<leftarrow>map amount (filter P cs). \<bar>v\<bar>) \<le> 2 ^ 53" by simp
  have i: "\<forall>v\<in>set (map amount (filter P cs)). v \<in> \<int>" using assms(1) by auto
  have "foldl fadd 0 (map amount (filter P cs)) = 0 + sum_list (map amount (filter P cs))"
    by (rule foldl_fadd_exact [OF _ i b]) simp
  then show ?thesis by simp
qed


subsection \<open>Order of processing\<close>

text \<open>
  Claim C2 says that the aggregated table does not depend on the order of the conversions,
  total value included. \<open>totalValue\<close> is accumulated with the double-precision \<open>+=\<close>,
  which is not associative: the amounts 0.1, 0.2 and 0.3 on one path sum to
  0.6000000000000001 in this order and to 0.6 in the reverse order.
\<close>

theorem aggregate_totalValue_order_counterexample:
  "mset [\<lparr>cpath = [''A''], amount = fl (1 / 10), currency = None\<rparr>,
         \<lparr>cpath = [''A''], amount = fl (2 / 10), currency = None\<rparr>,
         \<lparr>cpath = [''A''], amount = fl (3 / 10), currency = None\<rparr>]
   = mset [\<lparr>cpath = [''A''], amount = fl (3 / 10), currency = None\<rparr>,
           \<lparr>cpath = [''A''], amount = fl (2 / 10), currency = None\<rparr>,
           \<lparr>cpath = [''A''], amount = fl (1 / 10), currency = None\<rparr>]
   \<and> map_option totalValue
        (map_of (aggregate [\<lparr>cpath = [''A''], amount = fl (1 / 10), currency = None\<rparr>,
                            \<lparr>cpath = [''A''], amount = fl (2 / 10), currency = None\<rparr>,
                            \<lparr>cpath = [''A''], amount = fl (3 / 10), currency = None\<rparr>])
           ''A'')
       = Some (5404319552844596 / 9007199254740992)
   \<and> map_option totalValue
        (map_of (aggregate [\<lparr>cpath = [''A''], amount = fl (3 / 10), currency = None\<rparr>,
                            \<lparr>cpath = [''A''], amount = fl (2 / 10), currency = None\<rparr>,
                            \<lparr>cpath = [''A''], amount = fl (1 / 10), currency = None\<rparr>])
           ''A'')
       = Some (5404319552844595 / 9007199254740992)"
proof (intro conjI)
  show "mset [\<lparr>cpath = [''A''], amount = fl (1 / 10), currency = None\<rparr>,
         \<lparr>cpath = [''A''], amount = fl (2 / 10), currency = None\<rparr>,
         \<lparr>cpath = [''A''], amount = fl (3 / 10), currency = None\<rparr>]
   = mset [\<lparr>cpath = [''A''], amount = fl (3 / 10), currency = None\<rparr>,
           \<lparr>cpath = [''A''], amount = fl (2 / 10), currency = None\<rparr>,
           \<lparr>cpath = [''A''], amount = fl (1 / 10), currency = None\<rparr>]"
    by (simp add: add_mset_commute)
qed code_simp+

text \<open>
  Claim C2, as the source has it: for two lists holding the same conversions in any order,
  every path key has the same \<open>conversions\<close> count and the same set of currencies (and is
  present in both tables or in neither); the \<open>totalValue\<close> is the same as well whenever the
  amounts are integers whose absolute values sum to at most \<open>2^53\<close>, so that every partial
  sum is exact.
\<close>

theorem aggregate_order_independent:
  assumes "mset xs = mset ys"
  shows "map_option conversions (map_of (aggregate xs) k)
           = map_option conversions (map_of (aggregate ys) k)
       \<and> map_option (\<lambda>b. set (currencies b)) (map_of (aggregate xs) k)
           = map_option (\<lambda>b. set (currencies b)) (map_of (aggregate ys) k)
       \<and> ((\<forall>c\<in>set xs. amount c \<in> \<int>) \<and> (\<Sum>c\<leftarrow>xs. \<bar>amount c\<bar>) \<le> 2 ^ 53 \<longrightarrow>
            map_option totalValue (map_of (aggregate xs) k)
              = map_option totalValue (map_of (aggregate ys) k))"
proof -
  let ?P = "\<lambda>c. pathToKey (cpath c) = k"
  from assms have m: "mset (filter ?P xs) = mset (filter ?P ys)" by (simp only: mset_filter)
  then have len: "length (filter ?P xs) = length (filter ?P ys)" by (metis size_mset)
  then have emp: "filter ?P xs = [] \<longleftrightarrow> filter ?P ys = []" by (metis length_0_conv)
  from m have st: "set (filter ?P xs) = set (filter ?P ys)" by (metis set_mset_mset)
  have a: "map_option conversions (map_of (aggregate xs) k)
           = map_option conversions (map_of (aggregate ys) k)"
    using len emp by (simp add: aggregate_conversions Let_def)
  have b: "map_option (\<lambda>b. set (currencies b)) (map_of (aggregate xs) k)
           = map_option (\<lambda>b. set (currencies b)) (map_of (aggregate ys) k)"
    using st emp by (simp only: aggregate_currencies Let_def)
  have c: "map_option totalValue (map_of (aggregate xs) k)
              = map_option totalValue (map_of (aggregate ys) k)"
    if ix: "\<forall>c\<in>set xs. amount c \<in> \<int>" and bx: "(\<Sum>c\<leftarrow>xs. \<bar>amount c\<bar>) \<le> 2 ^ 53"
  proof -
    from assms have "set xs = set ys" by (metis set_mset_mset)
    with ix have iy: "\<forall>c\<in>set ys. amount c \<in> \<int>" by simp
    from assms have "mset (map (\<lambda>c. \<bar>amount c\<bar>) xs) = mset (map (\<lambda>c. \<bar>amount c\<bar>) ys)"
      by (simp only: mset_map)
    then have "(\<Sum>c\<leftarrow>xs. \<bar>amount c\<bar>) = (\<Sum>c\<leftarrow>ys. \<bar>amount c\<bar>)"
      by (metis sum_mset_sum_list)
    with bx have by': "(\<Sum>c\<leftarrow>ys. \<bar>amount c\<bar>) \<le> 2 ^ 53" by simp
    from m have "mset (map amount (filter ?P xs)) = mset (map amount (filter ?P ys))"
      by (simp only: mset_map)
    then have "(\<Sum>c\<leftarrow>filter ?P xs. amount c) = (\<Sum>c\<leftarrow>filter ?P ys. amount c)"
      by (metis sum_mset_sum_list)
    with exact_totalValue [OF ix bx, of ?P] exact_totalValue [OF iy by', of ?P]
    have "foldl fadd 0 (map amount (filter ?P xs)) = foldl fadd 0 (map amount (filter ?P ys))"
      by simp
    with emp show ?thesis by (simp only: aggregate_totalValue Let_def)
  qed
  from a b c show ?thesis by blast
qed

theorem aggregate_order_independent_witness:
  "map_option conversions
      (map_of (aggregate [\<lparr>cpath = [''A'', ''B''], amount = 100, currency = Some ''USD''\<rparr>,
                          \<lparr>cpath = [''C''], amount = 250, currency = Some ''EUR''\<rparr>,
                          \<lparr>cpath = [''A'', ''B''], amount = 40, currency = Some ''EUR''\<rparr>]) ''A>B'')
     = map_option conversions
      (map_of (aggregate [\<lparr>cpath = [''A'', ''B''], amount = 40, currency = Some ''EUR''\<rparr>,
                          \<lparr>cpath = [''C''], amount = 250, currency = Some ''EUR''\<rparr>,
                          \<lparr>cpath = [''A'', ''B''], amount = 100, currency = Some ''USD''\<rparr>]) ''A>B'')
   \<and> map_option (\<lambda>b. set (currencies b))
      (map_of (aggregate [\<lparr>cpath = [''A'', ''B''], amount = 100, currency = Some ''USD''\<rparr>,
                          \<lparr>cpath = [''C''], amount = 250, currency = Some ''EUR''\<rparr>,
                          \<lparr>cpath = [''A'', ''B''], amount = 40, currency = Some ''EUR''\<rparr>]) ''A>B'')
     = map_option (\<lambda>b. set (currencies b))
      (map_of (aggregate [\<lparr>cpath = [''A'', ''B''], amount = 40, currency = Some ''EUR''\<rparr>,
                          \<lparr>cpath = [''C''], amount = 250, currency = Some ''EUR''\<rparr>,
                          \<lparr>cpath = [''A'', ''B''], amount = 100, currency = Some ''USD''\<rparr>]) ''A>B'')
   \<and> map_option totalValue
      (map_of (aggregate [\<lparr>cpath = [''A'', ''B''], amount = 100, currency = Some ''USD''\<rparr>,
                          \<lparr>cpath = [''C''], amount = 250, currency = Some ''EUR''\<rparr>,
                          \<lparr>cpath = [''A'', ''B''], amount = 40, currency = Some ''EUR''\<rparr>]) ''A>B'')
     = map_option totalValue
      (map_of (aggregate [\<lparr>cpath = [''A'', ''B''], amount = 40, currency = Some ''EUR''\<rparr>,
                          \<lparr>cpath = [''C''], amount = 250, currency = Some ''EUR''\<rparr>,
                          \<lparr>cpath = [''A'', ''B''], amount = 100, currency = Some ''USD''\<rparr>]) ''A>B'')"
proof -
  let ?xs = "[\<lparr>cpath = [''A'', ''B''], amount = 100, currency = Some ''USD''\<rparr>,
              \<lparr>cpath = [''C''], amount = 250, currency = Some ''EUR''\<rparr>,
              \<lparr>cpath = [''A'', ''B''], amount = 40, currency = Some ''EUR''\<rparr>]"
  let ?ys = "[\<lparr>cpath = [''A'', ''B''], amount = 40, currency = Some ''EUR''\<rparr>,
              \<lparr>cpath = [''C''], amount = 250, currency = Some ''EUR''\<rparr>,
              \<lparr>cpath = [''A'', ''B''], amount = 100, currency = Some ''USD''\<rparr>]"
  have m: "mset ?xs = mset ?ys" by (simp add: add_mset_commute)
  have i: "\<forall>c\<in>set ?xs. amount c \<in> \<int>" by simp
  have b: "(\<Sum>c\<leftarrow>?xs. \<bar>amount c\<bar>) \<le> 2 ^ 53" by simp
  from aggregate_order_independent [OF m, of "''A>B''"] i b show ?thesis by blast
qed

subsection \<open>The threshold\<close>

lemma set_qualifying:
  "set (qualifying pathCounts n pct) =
     {p \<in> snd ` set pathCounts. threshNum n pct \<le> int (conversions p)}"
  by (auto simp: qualifying_def)

text \<open>
  Claim C3: the cutoff is \<open>max(1, ceil(totalConversions * thresholdPct / 100))\<close>, and a
  path is in the ranked output iff its count reaches the cutoff. The filter is as claimed,
  and the cutoff for 27 conversions at 10 percent is 3. The source computes
  \<open>totalConversions * (thresholdPct / 100)\<close> in double precision: for 100 conversions at
  7 percent the product is 7.000000000000001 and the cutoff is 8, where the claimed
  formula gives 7; a path with 7 of the 100 conversions is left out of the ranking.
\<close>

theorem threshNum_rounds_up_at_100_7:
  "(p \<in> set (qualifying pathCounts n pct)
      \<longleftrightarrow> p \<in> snd ` set pathCounts \<and> threshNum n pct \<le> int (conversions p))
   \<and> threshNum 27 10 = 3
   \<and> max 1 \<lceil>(100 :: rat) * 7 / 100\<rceil> = 7
   \<and> threshNum 100 7 = 8
   \<and> map pathKey
        (topPaths
           (aggregate (replicate 7 \<lparr>cpath = [''A''], amount = 0, currency = None\<rparr>
                       @ replicate 93 \<lparr>cpath = [''B''], amount = 0, currency = None\<rparr>))
           100 7)
       = [''B'']"
proof (intro conjI)
  show "p \<in> set (qualifying pathCounts n pct)
      \<longleftrightarrow> p \<in> snd ` set pathCounts \<and> threshNum n pct \<le> int (conversions p)"
    by (simp add: set_qualifying)
  show "threshNum 27 10 = 3" by code_simp
  show "max 1 \<lceil>(100 :: rat) * 7 / 100\<rceil> = 7" by simp
  show "threshNum 100 7 = 8" by code_simp
  show "map pathKey
        (topPaths
           (aggregate (replicate 7 \<lparr>cpath = [''A''], amount = 0, currency = None\<rparr>
                       @ replicate 93 \<lparr>cpath = [''B''], amount = 0, currency = None\<rparr>))
           100 7)
       = [''B'']"
    by code_simp
qed

end
